theory Spec2Isabelle
  imports Main "HOL-Library.AList" "HOL-Library.Sublist"
begin

section \<open>Strings\<close>

text \<open>
  Where the code only compares, concatenates and splits strings, a JavaScript string is
  modelled as \<^typ>\<open>string\<close>. \<open>js_split\<close> is \<open>String.prototype.split\<close> with a
  one-character separator (it never returns the empty array: \<open>"".split("/")\<close> is \<open>[""]\<close>,
  so the first branch of the \<open>case\<close> below is never taken), \<open>js_join\<close> is
  \<open>Array.prototype.join\<close>; both work on any kind of character.
\<close>

fun js_split :: "'a \<Rightarrow> 'a list \<Rightarrow> 'a list list" where
  "js_split d [] = [[]]"
| "js_split d (c # cs) =
     (if c = d then [] # js_split d cs
      else (case js_split d cs of [] \<Rightarrow> [[c]] | p # ps \<Rightarrow> (c # p) # ps))"

fun js_join :: "'a list \<Rightarrow> 'a list list \<Rightarrow> 'a list" where
  "js_join d [] = []"
| "js_join d [x] = x"
| "js_join d (x # y # ys) = x @ d @ js_join d (y # ys)"

section \<open>The file set, the folder ledger and the persistence collaborator\<close>

text \<open>
  \<open>markdownFiles\<close> is a JavaScript object from storage key to content; it is modelled as
  an association list in \<open>Object.entries\<close> order. A mutation batch
  (\<open>Record<string, string | null>\<close>) maps a key to \<open>Some content\<close> or to \<open>None\<close>, the
  \<open>null\<close> tombstone; \<open>obj[k] = v\<close> is \<^const>\<open>AList.update\<close>, which overwrites in place
  or appends.
\<close>

type_synonym files = "(string \<times> string) list"
type_synonym batch = "(string \<times> string option) list"

datatype event = WRITE_FILES batch string

text \<open>
  The atoms the hooks read and write: the snapshot of the file set, the virtual folder
  ledger, and the events handed to the state machine with \<open>send\<close>, oldest first.
\<close>

record world =
  markdownFiles :: files
  virtualFolders :: "string list"
  sent :: "event list"

definition send :: "event \<Rightarrow> world \<Rightarrow> world" where
  "send e w = w\<lparr>sent := sent w @ [e]\<rparr>"

section \<open>Rename\<close>

datatype reason = duplicate | invalid | no_op

datatype RenameNoteResult = RenameSuccess | RenameFailure reason

text \<open>
  The hooks import \<open>isValidNoteId\<close> from \<open>utils/note-id\<close> and \<open>updateWikilinks\<close> from
  \<open>utils/update-wikilinks\<close>; here they take both as parameters, the rewriter as
  \<open>updateWikilinks fileContent oldId newId\<close>.
\<close>

type_synonym validator = "string \<Rightarrow> bool"
type_synonym rewriter = "string \<Rightarrow> string \<Rightarrow> string \<Rightarrow> string"

text \<open>The loop "Update wikilinks in all other notes" of \<open>useRenameNote\<close>.\<close>

fun rename_others :: "rewriter \<Rightarrow> string \<Rightarrow> string \<Rightarrow> files \<Rightarrow> batch \<Rightarrow> batch" where
  "rename_others updateWikilinks oldName newName [] updatedMarkdownFiles = updatedMarkdownFiles"
| "rename_others updateWikilinks oldName newName ((filepath, content) # entries) updatedMarkdownFiles =
     (if filepath = oldName @ ''.md''
      then rename_others updateWikilinks oldName newName entries updatedMarkdownFiles
      else if updateWikilinks content oldName newName \<noteq> content
      then rename_others updateWikilinks oldName newName entries
             (AList.update filepath (Some (updateWikilinks content oldName newName)) updatedMarkdownFiles)
      else rename_others updateWikilinks oldName newName entries updatedMarkdownFiles)"

text \<open>\<open>markdownFiles[newFilepath]\<close> used as a condition: absent and \<open>""\<close> are both falsy.\<close>

definition truthy :: "string option \<Rightarrow> bool" where
  "truthy v = (case v of None \<Rightarrow> False | Some s \<Rightarrow> s \<noteq> [])"

definition rename_batch :: "rewriter \<Rightarrow> files \<Rightarrow> string \<Rightarrow> string \<Rightarrow> string \<Rightarrow> batch" where
  "rename_batch updateWikilinks files oldName newName content =
     (let oldFilepath = oldName @ ''.md'';
          newFilepath = newName @ ''.md'';
          oldFileExists = (map_of files oldFilepath \<noteq> None);
          u1 = rename_others updateWikilinks oldName newName files [];
          u2 = AList.update newFilepath (Some (updateWikilinks content oldName newName)) u1
      in if oldFileExists then AList.update oldFilepath None u2 else u2)"

definition renameNote ::
  "validator \<Rightarrow> rewriter \<Rightarrow> string \<Rightarrow> string \<Rightarrow> string \<Rightarrow> world \<Rightarrow> RenameNoteResult \<times> world" where
  "renameNote isValidNoteId updateWikilinks oldName newName content w =
     (let oldFilepath = oldName @ ''.md'';
          newFilepath = newName @ ''.md''
      in if oldName = [] \<or> newName = [] \<or> oldName = newName then (RenameFailure no_op, w)
         else if \<not> isValidNoteId newName then (RenameFailure invalid, w)
         else if newFilepath \<noteq> oldFilepath \<and> truthy (map_of (markdownFiles w) newFilepath)
         then (RenameFailure duplicate, w)
         else let updatedMarkdownFiles =
                    rename_batch updateWikilinks (markdownFiles w) oldName newName content
              in if length updatedMarkdownFiles > 0
                 then (RenameSuccess,
                       send (WRITE_FILES updatedMarkdownFiles
                               (''Rename note '' @ oldName @ '' to '' @ newName)) w)
                 else (RenameSuccess, w))"

section \<open>Folder prefixes\<close>

text \<open>All folder path prefixes of a note id: \<open>"a/b/c"\<close> gives \<open>["a", "a/b"]\<close>.\<close>

definition getFolderPrefixes :: "string \<Rightarrow> string list" where
  "getFolderPrefixes noteId =
     (let parts = js_split CHR ''/'' noteId
      in if length parts \<le> 1 then []
         else map (\<lambda>i. js_join ''/'' (take i parts)) [1 ..< length parts])"

text \<open>
  What \<open>useSaveNote\<close> does to the ledger when it writes the note \<open>id\<close>: it removes the
  folder prefixes of \<open>id\<close>, "now that they exist on disk".
\<close>

definition saveNote_virtualFolders :: "string \<Rightarrow> string list \<Rightarrow> string list" where
  "saveNote_virtualFolders noteId prev =
     (let folderPrefixes = getFolderPrefixes noteId
      in if length folderPrefixes > 0
         then filter (\<lambda>path. path \<notin> set folderPrefixes) prev
         else prev)"

section \<open>Move\<close>

text \<open>An entry of the work list \<open>moved\<close>: \<open>(oldId, newId, content)\<close>.\<close>

type_synonym moved_item = "string \<times> string \<times> string"

datatype MoveNotesResult = MoveSuccess nat "string list" | MoveFailure string

definition basename :: "string \<Rightarrow> string" where
  "basename oldId =
     (if CHR ''/'' \<in> set oldId then last (js_split CHR ''/'' oldId) else oldId)"

definition move_newId :: "string \<Rightarrow> string \<Rightarrow> string" where
  "move_newId targetFolder oldId =
     (if targetFolder \<noteq> [] then targetFolder @ ''/'' @ basename oldId else basename oldId)"

text \<open>The first loop of \<open>useMoveNotesToFolder\<close>: each input id is skipped, dropped or queued.\<close>

fun move_select ::
  "validator \<Rightarrow> files \<Rightarrow> string \<Rightarrow> string list \<Rightarrow> moved_item list \<Rightarrow> string list
     \<Rightarrow> moved_item list \<times> string list" where
  "move_select isValidNoteId fs targetFolder [] moved skipped = (moved, skipped)"
| "move_select isValidNoteId fs targetFolder (oldId # noteIds) moved skipped =
     (case map_of fs (oldId @ ''.md'') of
        None \<Rightarrow> move_select isValidNoteId fs targetFolder noteIds moved (skipped @ [oldId])
      | Some content \<Rightarrow>
          if move_newId targetFolder oldId = oldId
          then move_select isValidNoteId fs targetFolder noteIds moved skipped
          else if \<not> isValidNoteId (move_newId targetFolder oldId)
          then move_select isValidNoteId fs targetFolder noteIds moved (skipped @ [oldId])
          else if map_of fs (move_newId targetFolder oldId @ ''.md'') \<noteq> None
                  \<and> move_newId targetFolder oldId @ ''.md'' \<noteq> oldId @ ''.md''
          then move_select isValidNoteId fs targetFolder noteIds moved (skipped @ [oldId])
          else move_select isValidNoteId fs targetFolder noteIds
                 (moved @ [(oldId, move_newId targetFolder oldId, content)]) skipped)"

text \<open>The inner loop over \<open>moved\<close>: one rewrite per queued pair, in queued order.\<close>

fun rewrite_all :: "rewriter \<Rightarrow> moved_item list \<Rightarrow> string \<Rightarrow> string" where
  "rewrite_all updateWikilinks [] newContent = newContent"
| "rewrite_all updateWikilinks ((oldId, newId, c) # moved) newContent =
     rewrite_all updateWikilinks moved (updateWikilinks newContent oldId newId)"

text \<open>The loop over \<open>Object.entries(markdownFiles)\<close>.\<close>

fun move_others :: "rewriter \<Rightarrow> moved_item list \<Rightarrow> files \<Rightarrow> batch \<Rightarrow> batch" where
  "move_others updateWikilinks moved [] updatedMarkdownFiles = updatedMarkdownFiles"
| "move_others updateWikilinks moved ((filepath, content) # entries) updatedMarkdownFiles =
     (if rewrite_all updateWikilinks moved content \<noteq> content
      then move_others updateWikilinks moved entries
             (AList.update filepath (Some (rewrite_all updateWikilinks moved content))
                updatedMarkdownFiles)
      else move_others updateWikilinks moved entries updatedMarkdownFiles)"

text \<open>The loop that writes each relocated file and tombstones its old key.\<close>

fun move_writes :: "rewriter \<Rightarrow> moved_item list \<Rightarrow> batch \<Rightarrow> batch" where
  "move_writes updateWikilinks [] updatedMarkdownFiles = updatedMarkdownFiles"
| "move_writes updateWikilinks ((oldId, newId, content) # moved) updatedMarkdownFiles =
     move_writes updateWikilinks moved
       (AList.update (oldId @ ''.md'') None
          (AList.update (newId @ ''.md'') (Some (updateWikilinks content oldId newId))
             updatedMarkdownFiles))"

definition move_batch :: "rewriter \<Rightarrow> files \<Rightarrow> moved_item list \<Rightarrow> batch" where
  "move_batch updateWikilinks fs moved =
     move_writes updateWikilinks moved (move_others updateWikilinks moved fs [])"

text \<open>\<open>folderPrefixesToRemove\<close> is a set in the source; only membership and emptiness are used.\<close>

definition folderPrefixesToRemove :: "moved_item list \<Rightarrow> string list" where
  "folderPrefixesToRemove moved =
     concat (map (\<lambda>(oldId, newId, content). getFolderPrefixes oldId) moved)"

text \<open>Decimal digits of \<open>moved.length\<close> for the commit message.\<close>

fun show_nat :: "nat \<Rightarrow> string" where
  "show_nat n =
     (if n < 10 then [''0123456789'' ! n]
      else show_nat (n div 10) @ [''0123456789'' ! (n mod 10)])"

declare show_nat.simps [simp del]

definition moveNotesToFolder ::
  "validator \<Rightarrow> rewriter \<Rightarrow> string list \<Rightarrow> string \<Rightarrow> world \<Rightarrow> MoveNotesResult \<times> world" where
  "moveNotesToFolder isValidNoteId updateWikilinks noteIds targetFolder w =
     (let sel = move_select isValidNoteId (markdownFiles w) targetFolder noteIds [] [];
          moved = fst sel;
          skipped = snd sel
      in if length moved = 0 then (MoveSuccess 0 skipped, w)
         else
           let updatedMarkdownFiles = move_batch updateWikilinks (markdownFiles w) moved;
               w1 = (if folderPrefixesToRemove moved \<noteq> []
                     then w\<lparr>virtualFolders :=
                              filter (\<lambda>path. path \<notin> set (folderPrefixesToRemove moved))
                                (virtualFolders w)\<rparr>
                     else w)
           in (MoveSuccess (length moved) skipped,
               send (WRITE_FILES updatedMarkdownFiles
                       (''Move '' @ show_nat (length moved) @ '' note(s) to ''
                          @ (if targetFolder \<noteq> [] then targetFolder else ''root''))) w1))"

section \<open>Slugs\<close>

text \<open>
  The slug functions look at the characters themselves, so for them a JavaScript string is
  the list of its UTF-16 code units, each a natural number below 65536. \<open>units\<close> gives
  the code units of ASCII text; the dash is the unit \<open>0x2D\<close>, the slash is \<open>0x2F\<close>.
\<close>

type_synonym code_unit = nat
type_synonym jsstring = "code_unit list"

definition units :: "string \<Rightarrow> jsstring" where
  "units s = map of_char s"

text \<open>
  What \<open>\s\<close> matches and \<open>trim\<close> strips: the white space and line terminators of
  ECMAScript, that is tab, line feed, vertical tab, form feed, carriage return, space,
  no-break space, \<open>U+1680\<close>, \<open>U+2000\<close> to \<open>U+200A\<close>, \<open>U+2028\<close>, \<open>U+2029\<close>, \<open>U+202F\<close>,
  \<open>U+205F\<close>, \<open>U+3000\<close> and \<open>U+FEFF\<close>.
\<close>

definition is_space :: "code_unit \<Rightarrow> bool" where
  "is_space u =
     (u \<in> set [0x09, 0x0A, 0x0B, 0x0C, 0x0D, 0x20, 0xA0, 0x1680,
               0x2000, 0x2001, 0x2002, 0x2003, 0x2004, 0x2005, 0x2006, 0x2007, 0x2008,
               0x2009, 0x200A, 0x2028, 0x2029, 0x202F, 0x205F, 0x3000, 0xFEFF])"

definition trim :: "jsstring \<Rightarrow> jsstring" where
  "trim s = rev (dropWhile is_space (rev (dropWhile is_space s)))"

text \<open>\<open>replace(/\s+/g, "-")\<close> and \<open>replace(/-+/g, "-")\<close>: every maximal run becomes one dash.\<close>

function replace_runs :: "(code_unit \<Rightarrow> bool) \<Rightarrow> jsstring \<Rightarrow> jsstring" where
  "replace_runs P [] = []"
| "replace_runs P (c # cs) =
     (if P c then 0x2D # replace_runs P (dropWhile P cs) else c # replace_runs P cs)"
  by pat_completeness auto
termination
  by (relation "measure (\<lambda>(P, s). length s)") (auto simp: le_imp_less_Suc length_dropWhile_le)

text \<open>\<open>replace(/^-|-$/g, "")\<close>: a dash at the start goes, then a dash at the end.\<close>

definition strip_dashes :: "jsstring \<Rightarrow> jsstring" where
  "strip_dashes s =
     (let s1 = (case s of [] \<Rightarrow> [] | c # cs \<Rightarrow> if c = 0x2D then cs else c # cs)
      in if s1 \<noteq> [] \<and> last s1 = 0x2D then butlast s1 else s1)"

text \<open>
  \<open>String.prototype.toLowerCase\<close> is the Unicode lowercasing of the JavaScript runtime. It
  works on the whole string (a capital may become two code units, and the capital sigma
  depends on its neighbours), so it is a function on strings, and the slug functions take
  it as a parameter.
\<close>

definition slugifySegment :: "(jsstring \<Rightarrow> jsstring) \<Rightarrow> jsstring \<Rightarrow> jsstring" where
  "slugifySegment toLowerCase segment =
     strip_dashes
       (replace_runs (\<lambda>u. u = 0x2D)
          (replace_runs is_space (toLowerCase (trim segment))))"

definition toSlug :: "(jsstring \<Rightarrow> jsstring) \<Rightarrow> jsstring \<Rightarrow> jsstring" where
  "toSlug toLowerCase trimmed =
     js_join [0x2F]
       (filter (\<lambda>s. s \<noteq> []) (map (slugifySegment toLowerCase) (js_split 0x2F trimmed)))"

text \<open>
  On text whose only letters are ASCII letters, \<open>toLowerCase\<close> moves \<open>A\<close> to \<open>Z\<close>
  (\<open>0x41\<close> to \<open>0x5A\<close>) up by \<open>0x20\<close> and leaves every other code unit.
\<close>

definition ascii_toLowerCase :: "jsstring \<Rightarrow> jsstring" where
  "ascii_toLowerCase s = map (\<lambda>u. if 0x41 \<le> u \<and> u \<le> 0x5A then u + 0x20 else u) s"

section \<open>Tag frequencies\<close>

text \<open>Of a note, the tag cloud reads its tag list only.\<close>

record Note =
  tags :: "string list"

text \<open>
  \<open>frequencyMap\<close> is a \<open>Map\<close>: \<open>set\<close> on a key it holds keeps the key's place, a new key
  goes to the end, so the entries come in the order the tags are first met.
\<close>

fun count_tags :: "string list \<Rightarrow> (string \<times> nat) list \<Rightarrow> (string \<times> nat) list" where
  "count_tags [] frequencyMap = frequencyMap"
| "count_tags (tag # ts) frequencyMap =
     count_tags ts
       (AList.update tag ((case map_of frequencyMap tag of None \<Rightarrow> 0 | Some n \<Rightarrow> n) + 1)
          frequencyMap)"

definition frequencyEntries :: "Note list \<Rightarrow> (string \<times> nat) list" where
  "frequencyEntries childNotes = count_tags (concat (map tags childNotes)) []"

definition childTags :: "(string \<times> nat) list \<Rightarrow> string \<Rightarrow> (string \<times> nat) list" where
  "childTags entries tag =
     filter (\<lambda>(otherTag, otherFrequency). otherTag \<noteq> tag \<and> prefix tag otherTag) entries"

definition keep_tag :: "(string \<times> nat) list \<Rightarrow> string \<times> nat \<Rightarrow> bool" where
  "keep_tag entries e =
     (if length (childTags entries (fst e)) = 0 then True
      else \<not> list_all (\<lambda>(otherTag, otherFrequency). otherFrequency = snd e)
                 (childTags entries (fst e)))"

text \<open>
  \<open>Array.prototype.sort\<close> is stable; with the comparator \<open>b[1] - a[1]\<close> it orders by
  descending frequency.
\<close>

definition sortedTagFrequencies :: "Note list \<Rightarrow> (string \<times> nat) list" where
  "sortedTagFrequencies childNotes =
     sort_key (\<lambda>(tag, frequency). - int frequency)
       (filter (keep_tag (frequencyEntries childNotes))
          (filter (\<lambda>(tag, frequency). frequency < length childNotes)
             (frequencyEntries childNotes)))"

section \<open>Note identifiers and the rewriter, from their description\<close>

text \<open>
  Modelled from the spec: \<open>isValidNoteId\<close> of \<open>utils/note-id\<close>, which is not among the
  sources. An identifier is valid iff it has at least one \<open>/\<close>-separated segment and
  every segment is non-empty, made of lowercase letters, digits and dashes, with no
  leading dash, no trailing dash and no two dashes in a row.
\<close>

definition is_lower_letter :: "char \<Rightarrow> bool" where
  "is_lower_letter c = (c \<in> set ''abcdefghijklmnopqrstuvwxyz'')"

definition is_digit :: "char \<Rightarrow> bool" where
  "is_digit c = (c \<in> set ''0123456789'')"

definition is_id_char :: "char \<Rightarrow> bool" where
  "is_id_char c = (is_lower_letter c \<or> is_digit c \<or> c = CHR ''-'')"

fun double_dash :: "string \<Rightarrow> bool" where
  "double_dash (a # b # cs) = ((a = CHR ''-'' \<and> b = CHR ''-'') \<or> double_dash (b # cs))"
| "double_dash _ = False"

definition isValidSegment :: "string \<Rightarrow> bool" where
  "isValidSegment s =
     (s \<noteq> [] \<and> list_all is_id_char s \<and> hd s \<noteq> CHR ''-'' \<and> last s \<noteq> CHR ''-''
      \<and> \<not> double_dash s)"

definition isValidNoteId :: "string \<Rightarrow> bool" where
  "isValidNoteId noteId =
     (js_split CHR ''/'' noteId \<noteq> [] \<and> list_all isValidSegment (js_split CHR ''/'' noteId))"

text \<open>
  Modelled from the spec: \<open>updateWikilinks\<close> of \<open>utils/update-wikilinks\<close>, which is not
  among the sources. A reference to \<open>oldId\<close> is \<open>[[oldId]]\<close> or \<open>[[oldId|alias]]\<close>, the
  alias free of \<open>]\<close>; the identifier inside is replaced by \<open>newId\<close>, everything else is
  copied as it is.
\<close>

function updateWikilinks :: "string \<Rightarrow> string \<Rightarrow> string \<Rightarrow> string" where
  "updateWikilinks [] oldId newId = []"
| "updateWikilinks (c # cs) oldId newId =
     (if prefix (''[['' @ oldId @ '']]'') (c # cs)
      then ''[['' @ newId @ '']]'' @ updateWikilinks (drop (length oldId + 3) cs) oldId newId
      else if prefix (''[['' @ oldId @ ''|'') (c # cs)
              \<and> prefix '']]'' (dropWhile (\<lambda>x. x \<noteq> CHR '']'') (drop (length oldId + 2) cs))
      then ''[['' @ newId @ ''|'' @ takeWhile (\<lambda>x. x \<noteq> CHR '']'') (drop (length oldId + 2) cs) @ '']]''
           @ updateWikilinks
               (drop 2 (dropWhile (\<lambda>x. x \<noteq> CHR '']'') (drop (length oldId + 2) cs))) oldId newId
      else c # updateWikilinks cs oldId newId)"
  by pat_completeness auto
termination
  apply (relation "measure (\<lambda>(s, oldId, newId). length s)")
     apply simp_all
  apply (rule le_less_trans [OF diff_le_self])
  apply (rule le_less_trans [OF length_dropWhile_le])
  apply simp
  done

text \<open>
  Modelled from the spec: how the persistence collaborator (the \<open>WRITE_FILES\<close> handler of
  the state machine, not among the sources) applies a batch: a key mapped to content is
  written, a key mapped to the tombstone is deleted.
\<close>

fun applyBatch :: "batch \<Rightarrow> files \<Rightarrow> files" where
  "applyBatch [] fs = fs"
| "applyBatch ((k, None) # b) fs = applyBatch b (AList.delete k fs)"
| "applyBatch ((k, Some c) # b) fs = applyBatch b (AList.update k c fs)"

section \<open>The classification of the move's input, as the description words it\<close>

text \<open>
  An input id is skipped when its source is absent; otherwise dropped without notice when
  the new id equals the old one; otherwise skipped when the new id is invalid or the
  destination key is occupied; otherwise queued.
\<close>

datatype move_class = Skipped | Omitted | Queued

definition classify :: "validator \<Rightarrow> files \<Rightarrow> string \<Rightarrow> string \<Rightarrow> move_class" where
  "classify valid fs targetFolder oldId =
     (if map_of fs (oldId @ ''.md'') = None then Skipped
      else if move_newId targetFolder oldId = oldId then Omitted
      else if \<not> valid (move_newId targetFolder oldId) then Skipped
      else if map_of fs (move_newId targetFolder oldId @ ''.md'') \<noteq> None then Skipped
      else Queued)"

definition queued_item :: "files \<Rightarrow> string \<Rightarrow> string \<Rightarrow> moved_item" where
  "queued_item fs targetFolder oldId =
     (oldId, move_newId targetFolder oldId, the (map_of fs (oldId @ ''.md'')))"

section \<open>Plain input and the shape of a segment\<close>

text \<open>
  Plain input is made of ASCII letters, digits, dashes, slashes and white space. A
  segment is dash-shaped when it is non-empty, neither starts nor ends with a dash, and
  has no two dashes in a row.
\<close>

definition slug_input_unit :: "code_unit \<Rightarrow> bool" where
  "slug_input_unit u =
     (u \<in> set (units ''ABCDEFGHIJKLMNOPQRSTUVWXYZ'')
      \<or> u \<in> set (units ''abcdefghijklmnopqrstuvwxyz'')
      \<or> u \<in> set (units ''0123456789'')
      \<or> u = 0x2D \<or> u = 0x2F \<or> is_space u)"

fun double_dash_units :: "jsstring \<Rightarrow> bool" where
  "double_dash_units (a # b # us) = ((a = 0x2D \<and> b = 0x2D) \<or> double_dash_units (b # us))"
| "double_dash_units _ = False"

definition dash_shaped :: "jsstring \<Rightarrow> bool" where
  "dash_shaped s =
     (s \<noteq> [] \<and> hd s \<noteq> 0x2D \<and> last s \<noteq> 0x2D \<and> \<not> double_dash_units s)"

section \<open>Splitting, basenames and the first loop of the move\<close>

lemma js_split_not_Nil: "js_split d s \<noteq> []"
  by (induction s) (auto split: list.splits)

lemma js_split_no_sep: "d \<notin> set s \<Longrightarrow> js_split d s = [s]"
  by (induction s) auto

lemma basename_last: "basename oldId = last (js_split CHR ''/'' oldId)"
  by (simp add: basename_def js_split_no_sep)

lemma move_select_acc:
  "move_select valid fs t ids moved skipped =
     (moved @ map (queued_item fs t) (filter (\<lambda>i. classify valid fs t i = Queued) ids),
      skipped @ filter (\<lambda>i. classify valid fs t i = Skipped) ids)"
proof (induction ids arbitrary: moved skipped)
  case Nil
  show ?case by simp
next
  case (Cons i ids)
  show ?case
    by (cases "map_of fs (i @ ''.md'')")
       (simp_all add: Cons.IH classify_def queued_item_def)
qed

lemma classify_partition:
  "length (filter (\<lambda>i. classify valid fs t i = Queued) ids)
   + length (filter (\<lambda>i. classify valid fs t i = Skipped) ids)
   + length (filter (\<lambda>i. classify valid fs t i = Omitted) ids) = length ids"
proof (induction ids)
  case Nil
  show ?case by simp
next
  case (Cons i ids)
  then show ?case by (cases "classify valid fs t i") simp_all
qed

lemma move_result:
  "fst (moveNotesToFolder valid rw noteIds t w) =
     MoveSuccess (length (filter (\<lambda>i. classify valid (markdownFiles w) t i = Queued) noteIds))
       (filter (\<lambda>i. classify valid (markdownFiles w) t i = Skipped) noteIds)"
  by (simp add: moveNotesToFolder_def Let_def move_select_acc)

section \<open>Move: every input id is classified once\<close>

text \<open>
  C4. For every call of the move, each input id falls into exactly one class: skipped
  (source absent, new id invalid, or destination key occupied), dropped without notice
  (new id equal to the old id), or queued. The new id is the target folder, a slash and
  the last segment of the old id, or that segment alone when the target folder is empty.
  The call always succeeds; it reports the number of queued ids and the skipped ids in
  input order, and moved plus skipped equals the number of inputs minus the dropped ones.
\<close>

theorem move_classifies_and_counts:
  "fst (moveNotesToFolder valid rw noteIds targetFolder w) =
     MoveSuccess (length (filter (\<lambda>i. classify valid (markdownFiles w) targetFolder i = Queued) noteIds))
       (filter (\<lambda>i. classify valid (markdownFiles w) targetFolder i = Skipped) noteIds)
   \<and> move_select valid (markdownFiles w) targetFolder noteIds [] [] =
       (map (queued_item (markdownFiles w) targetFolder)
          (filter (\<lambda>i. classify valid (markdownFiles w) targetFolder i = Queued) noteIds),
        filter (\<lambda>i. classify valid (markdownFiles w) targetFolder i = Skipped) noteIds)
   \<and> length (filter (\<lambda>i. classify valid (markdownFiles w) targetFolder i = Queued) noteIds)
       + length (filter (\<lambda>i. classify valid (markdownFiles w) targetFolder i = Skipped) noteIds)
     = length noteIds
       - length (filter (\<lambda>i. classify valid (markdownFiles w) targetFolder i = Omitted) noteIds)
   \<and> move_newId targetFolder oldId =
       (if targetFolder = [] then last (js_split CHR ''/'' oldId)
        else targetFolder @ ''/'' @ last (js_split CHR ''/'' oldId))"
proof -
  have count: "length (filter (\<lambda>i. classify valid (markdownFiles w) targetFolder i = Queued) noteIds)
       + length (filter (\<lambda>i. classify valid (markdownFiles w) targetFolder i = Skipped) noteIds)
     = length noteIds
       - length (filter (\<lambda>i. classify valid (markdownFiles w) targetFolder i = Omitted) noteIds)"
    using classify_partition [of valid "markdownFiles w" targetFolder noteIds] by arith
  have new: "move_newId targetFolder oldId =
       (if targetFolder = [] then last (js_split CHR ''/'' oldId)
        else targetFolder @ ''/'' @ last (js_split CHR ''/'' oldId))"
    by (simp add: move_newId_def basename_last)
  show ?thesis
    using count new by (simp only: move_result move_select_acc append_Nil simp_thms)
qed

theorem move_classifies_and_counts_witness:
  "fst (moveNotesToFolder isValidNoteId updateWikilinks [''a/x'', ''a/y'', ''b/z'', ''zz''] ''b''
          \<lparr>markdownFiles = [(''a/x.md'', ''x''), (''a/y.md'', ''y''), (''b/y.md'', ''q''), (''b/z.md'', ''z'')],
           virtualFolders = [], sent = []\<rparr>)
     = MoveSuccess 1 [''a/y'', ''zz'']
   \<and> move_newId ''b'' ''a/x'' = ''b/x''"
  using move_classifies_and_counts [of isValidNoteId updateWikilinks
      "[''a/x'', ''a/y'', ''b/z'', ''zz'']" "''b''"
      "\<lparr>markdownFiles = [(''a/x.md'', ''x''), (''a/y.md'', ''y''), (''b/y.md'', ''q''), (''b/z.md'', ''z'')],
           virtualFolders = [], sent = []\<rparr>" "''a/x''"]
  by (simp add: classify_def move_newId_def basename_def isValidNoteId_def isValidSegment_def
      is_id_char_def is_lower_letter_def is_digit_def)

section \<open>Rename: failures change nothing\<close>

text \<open>
  C6. Whenever rename returns a failure, the world is left as it was: no batch is handed
  to the persistence collaborator, and file set and ledger are unchanged. The failure is
  no-op exactly when an identifier is empty or both are equal, invalid when the new
  identifier is rejected by \<open>isValidNoteId\<close>, and duplicate otherwise.
\<close>

theorem rename_failure_no_mutation:
  assumes "fst (renameNote valid rw oldName newName content w) = RenameFailure r"
  shows "snd (renameNote valid rw oldName newName content w) = w
         \<and> (r = no_op \<longleftrightarrow> (oldName = [] \<or> newName = [] \<or> oldName = newName))
         \<and> (r = invalid \<longrightarrow> \<not> valid newName)
         \<and> (r = duplicate \<longrightarrow> map_of (markdownFiles w) (newName @ ''.md'') \<noteq> None)"
  using assms
  by (auto simp: renameNote_def Let_def truthy_def split: if_splits option.splits)

theorem rename_failure_no_mutation_witness:
  "fst (renameNote isValidNoteId (\<lambda>c a b. c) ''a'' ''B!'' ''text''
          \<lparr>markdownFiles = [(''a.md'', ''text'')], virtualFolders = [], sent = []\<rparr>)
     = RenameFailure invalid
   \<and> snd (renameNote isValidNoteId (\<lambda>c a b. c) ''a'' ''B!'' ''text''
          \<lparr>markdownFiles = [(''a.md'', ''text'')], virtualFolders = [], sent = []\<rparr>)
     = \<lparr>markdownFiles = [(''a.md'', ''text'')], virtualFolders = [], sent = []\<rparr>"
proof -
  have f: "fst (renameNote isValidNoteId (\<lambda>c a b. c) ''a'' ''B!'' ''text''
          \<lparr>markdownFiles = [(''a.md'', ''text'')], virtualFolders = [], sent = []\<rparr>)
     = RenameFailure invalid"
    by (simp add: renameNote_def isValidNoteId_def isValidSegment_def is_id_char_def
        is_lower_letter_def is_digit_def)
  from rename_failure_no_mutation [OF f] f show ?thesis by simp
qed

section \<open>Rename: the loop over the other files\<close>

lemma map_of_rename_others:
  "distinct (map fst fs) \<Longrightarrow>
   map_of (rename_others rw old new fs acc) k =
     (case map_of fs k of
        None \<Rightarrow> map_of acc k
      | Some c \<Rightarrow> if k \<noteq> old @ ''.md'' \<and> rw c old new \<noteq> c
                  then Some (Some (rw c old new)) else map_of acc k)"
proof (induction fs arbitrary: acc k)
  case Nil
  show ?case by simp
next
  case (Cons e fs)
  obtain f c where e: "e = (f, c)" by (cases e)
  from Cons.prems e have d: "distinct (map fst fs)" and nf: "map_of fs f = None"
    by (auto simp: map_of_eq_None_iff)
  show ?case
    using nf by (auto simp: e Cons.IH [OF d] update_conv' split: option.splits)
qed

lemma distinct_rename_others:
  "distinct (map fst acc) \<Longrightarrow> distinct (map fst (rename_others rw old new fs acc))"
  by (induction fs arbitrary: acc) (auto simp: distinct_update)

section \<open>Rename: the batch of a successful rename\<close>

text \<open>
  C3. For every snapshot (an object: its keys are distinct) and every successful rename,
  one batch is emitted. It maps the new key to the given content rewritten from the old
  id to the new id; it maps the old key to the tombstone when the snapshot has a file
  there and does not mention it otherwise; and every other key is in the batch exactly
  when the snapshot has a file there whose rewritten content differs from its content,
  mapped to the rewritten content.
\<close>

theorem rename_success_batch:
  assumes "distinct (map fst (markdownFiles w))"
    and "fst (renameNote valid rw oldName newName content w) = RenameSuccess"
  shows "snd (renameNote valid rw oldName newName content w) =
           send (WRITE_FILES (rename_batch rw (markdownFiles w) oldName newName content)
                   (''Rename note '' @ oldName @ '' to '' @ newName)) w
     \<and> map_of (rename_batch rw (markdownFiles w) oldName newName content) (newName @ ''.md'')
         = Some (Some (rw content oldName newName))
     \<and> map_of (rename_batch rw (markdownFiles w) oldName newName content) (oldName @ ''.md'')
         = (if map_of (markdownFiles w) (oldName @ ''.md'') = None then None else Some None)
     \<and> (\<forall>k. k \<noteq> newName @ ''.md'' \<and> k \<noteq> oldName @ ''.md'' \<longrightarrow>
           map_of (rename_batch rw (markdownFiles w) oldName newName content) k
             = (case map_of (markdownFiles w) k of
                  None \<Rightarrow> None
                | Some c \<Rightarrow> if rw c oldName newName = c then None
                            else Some (Some (rw c oldName newName))))"
proof -
  from assms(2) have ne: "oldName \<noteq> newName"
    by (auto simp: renameNote_def Let_def split: if_splits)
  have nonempty: "rename_batch rw (markdownFiles w) oldName newName content \<noteq> []"
    by (simp add: rename_batch_def Let_def)
  have sent: "snd (renameNote valid rw oldName newName content w) =
           send (WRITE_FILES (rename_batch rw (markdownFiles w) oldName newName content)
                   (''Rename note '' @ oldName @ '' to '' @ newName)) w"
    using assms(2) nonempty by (auto simp: renameNote_def Let_def split: if_splits)
  have new: "map_of (rename_batch rw (markdownFiles w) oldName newName content) (newName @ ''.md'')
         = Some (Some (rw content oldName newName))"
    using ne by (simp add: rename_batch_def Let_def update_conv')
  have old: "map_of (rename_batch rw (markdownFiles w) oldName newName content) (oldName @ ''.md'')
         = (if map_of (markdownFiles w) (oldName @ ''.md'') = None then None else Some None)"
    using ne
    by (auto simp: rename_batch_def Let_def update_conv' map_of_rename_others [OF assms(1)]
             split: option.splits)
  have others: "map_of (rename_batch rw (markdownFiles w) oldName newName content) k
             = (case map_of (markdownFiles w) k of
                  None \<Rightarrow> None
                | Some c \<Rightarrow> if rw c oldName newName = c then None
                            else Some (Some (rw c oldName newName)))"
    if "k \<noteq> newName @ ''.md'' \<and> k \<noteq> oldName @ ''.md''" for k
    using that
    by (auto simp: rename_batch_def Let_def update_conv' map_of_rename_others [OF assms(1)]
             split: option.splits)
  from sent new old others show ?thesis by blast
qed

theorem rename_success_batch_witness:
  "distinct (map fst [(''notes/draft.md'', ''old''), (''o.md'', ''[[notes/draft|My Draft]]'')])
   \<and> fst (renameNote isValidNoteId updateWikilinks ''notes/draft'' ''notes/final'' ''self [[notes/draft]]''
          \<lparr>markdownFiles = [(''notes/draft.md'', ''old''), (''o.md'', ''[[notes/draft|My Draft]]'')],
           virtualFolders = [], sent = []\<rparr>) = RenameSuccess
   \<and> map_of (rename_batch updateWikilinks
               [(''notes/draft.md'', ''old''), (''o.md'', ''[[notes/draft|My Draft]]'')]
               ''notes/draft'' ''notes/final'' ''self [[notes/draft]]'') ''notes/final.md''
        = Some (Some ''self [[notes/final]]'')
   \<and> map_of (rename_batch updateWikilinks
               [(''notes/draft.md'', ''old''), (''o.md'', ''[[notes/draft|My Draft]]'')]
               ''notes/draft'' ''notes/final'' ''self [[notes/draft]]'') ''notes/draft.md''
        = Some None
   \<and> map_of (rename_batch updateWikilinks
               [(''notes/draft.md'', ''old''), (''o.md'', ''[[notes/draft|My Draft]]'')]
               ''notes/draft'' ''notes/final'' ''self [[notes/draft]]'') ''o.md''
        = Some (Some ''[[notes/final|My Draft]]'')"
proof -
  let ?w = "\<lparr>markdownFiles = [(''notes/draft.md'', ''old''), (''o.md'', ''[[notes/draft|My Draft]]'')],
           virtualFolders = [], sent = []\<rparr>"
  have d: "distinct (map fst (markdownFiles ?w))" by simp
  have s: "fst (renameNote isValidNoteId updateWikilinks ''notes/draft'' ''notes/final''
             ''self [[notes/draft]]'' ?w) = RenameSuccess"
    by (simp add: renameNote_def truthy_def isValidNoteId_def isValidSegment_def
        is_id_char_def is_lower_letter_def is_digit_def Let_def)
  have k: "''o.md'' \<noteq> ''notes/final'' @ ''.md'' \<and> ''o.md'' \<noteq> ''notes/draft'' @ ''.md''" by simp
  from rename_success_batch [OF d s] have
    "map_of (rename_batch updateWikilinks (markdownFiles ?w) ''notes/draft'' ''notes/final''
       ''self [[notes/draft]]'') (''notes/final'' @ ''.md'')
       = Some (Some (updateWikilinks ''self [[notes/draft]]'' ''notes/draft'' ''notes/final''))"
    and "map_of (rename_batch updateWikilinks (markdownFiles ?w) ''notes/draft'' ''notes/final''
       ''self [[notes/draft]]'') (''notes/draft'' @ ''.md'')
       = (if map_of (markdownFiles ?w) (''notes/draft'' @ ''.md'') = None then None else Some None)"
    and "map_of (rename_batch updateWikilinks (markdownFiles ?w) ''notes/draft'' ''notes/final''
       ''self [[notes/draft]]'') ''o.md''
       = (case map_of (markdownFiles ?w) ''o.md'' of None \<Rightarrow> None
          | Some c \<Rightarrow> if updateWikilinks c ''notes/draft'' ''notes/final'' = c then None
                      else Some (Some (updateWikilinks c ''notes/draft'' ''notes/final'')))"
    using k by blast+
  then show ?thesis using d s by simp
qed

section \<open>Rename: the duplicate check\<close>

text \<open>
  C5. The duplicate check reads the content at the new key as a condition, so a file with
  empty content does not count: with a file \<open>b.md\<close> of empty content in the snapshot,
  renaming \<open>a\<close> to \<open>b\<close> succeeds and the batch overwrites \<open>b.md\<close>.
\<close>

theorem rename_overwrites_empty_file:
  "map_of [(''b.md'', '''')] (''b'' @ ''.md'') = Some ''''
   \<and> ''b'' @ ''.md'' \<noteq> ''a'' @ ''.md''
   \<and> renameNote isValidNoteId updateWikilinks ''a'' ''b'' ''x''
        \<lparr>markdownFiles = [(''b.md'', '''')], virtualFolders = [], sent = []\<rparr>
     = (RenameSuccess,
        \<lparr>markdownFiles = [(''b.md'', '''')], virtualFolders = [],
         sent = [WRITE_FILES [(''b.md'', Some ''x'')] ''Rename note a to b'']\<rparr>)"
  by (simp add: renameNote_def rename_batch_def truthy_def send_def isValidNoteId_def
      isValidSegment_def is_id_char_def is_lower_letter_def is_digit_def Let_def)

section \<open>Auxiliary facts on batches\<close>

lemma map_of_applyBatch:
  "distinct (map fst b) \<Longrightarrow>
   map_of (applyBatch b fs) k =
     (case map_of b k of None \<Rightarrow> map_of fs k | Some None \<Rightarrow> None | Some (Some c) \<Rightarrow> Some c)"
proof (induction b fs rule: applyBatch.induct)
  case (1 fs)
  show ?case by simp
next
  case (2 k' b fs)
  then have "map_of b k' = None" by (auto simp: map_of_eq_None_iff)
  with 2 show ?case by (auto simp: delete_conv' split: option.splits)
next
  case (3 k' c b fs)
  then have "map_of b k' = None" by (auto simp: map_of_eq_None_iff)
  with 3 show ?case by (auto simp: update_conv' split: option.splits)
qed

lemma distinct_move_others:
  "distinct (map fst acc) \<Longrightarrow> distinct (map fst (move_others rw moved fs acc))"
  by (induction fs arbitrary: acc) (auto simp: distinct_update)

lemma distinct_move_writes:
  "distinct (map fst acc) \<Longrightarrow> distinct (map fst (move_writes rw moved acc))"
  by (induction moved arbitrary: acc) (auto simp: distinct_update)

lemma distinct_move_batch: "distinct (map fst (move_batch rw fs moved))"
  by (simp add: move_batch_def distinct_move_others distinct_move_writes)

section \<open>The virtual folder ledger\<close>

text \<open>
  C2. Neither engine reconciles the ids it introduces. Renaming \<open>x\<close> to \<open>b/x\<close>
  succeeds and introduces \<open>b/x\<close>, whose only ancestor folder is \<open>b\<close>; the ledger
  \<open>[b]\<close> stays as it is, where the ledger update of \<open>useSaveNote\<close> for \<open>b/x\<close> empties
  it. Moving \<open>a/x\<close> into \<open>b\<close> succeeds and introduces \<open>b/x\<close> as well; from the ledger
  \<open>[a, b]\<close> it removes \<open>a\<close>, the ancestor of the old id, and keeps \<open>b\<close>, where the
  update of \<open>useSaveNote\<close> for \<open>b/x\<close> removes \<open>b\<close> and keeps \<open>a\<close>.
\<close>

theorem engines_do_not_reconcile_new_ids:
  "fst (renameNote isValidNoteId updateWikilinks ''x'' ''b/x'' ''text''
          \<lparr>markdownFiles = [(''x.md'', ''text'')], virtualFolders = [''b''], sent = []\<rparr>)
     = RenameSuccess
   \<and> getFolderPrefixes ''b/x'' = [''b'']
   \<and> virtualFolders (snd (renameNote isValidNoteId updateWikilinks ''x'' ''b/x'' ''text''
          \<lparr>markdownFiles = [(''x.md'', ''text'')], virtualFolders = [''b''], sent = []\<rparr>))
     = [''b'']
   \<and> saveNote_virtualFolders ''b/x'' [''b''] = []
   \<and> fst (moveNotesToFolder isValidNoteId updateWikilinks [''a/x''] ''b''
          \<lparr>markdownFiles = [(''a/x.md'', ''text'')], virtualFolders = [''a'', ''b''], sent = []\<rparr>)
     = MoveSuccess 1 []
   \<and> virtualFolders (snd (moveNotesToFolder isValidNoteId updateWikilinks [''a/x''] ''b''
          \<lparr>markdownFiles = [(''a/x.md'', ''text'')], virtualFolders = [''a'', ''b''], sent = []\<rparr>))
     = [''b'']
   \<and> saveNote_virtualFolders ''b/x'' [''a'', ''b''] = [''a'']"
  by (simp add: renameNote_def rename_batch_def truthy_def send_def isValidNoteId_def
      isValidSegment_def is_id_char_def is_lower_letter_def is_digit_def Let_def
      getFolderPrefixes_def moveNotesToFolder_def move_newId_def basename_def
      folderPrefixesToRemove_def move_batch_def saveNote_virtualFolders_def)

section \<open>Move: two notes with one basename\<close>

lemma move_batch_two:
  assumes "o1 \<noteq> o2" "n \<noteq> o1" "n \<noteq> o2"
  shows "map_of (move_batch rw fs [(o1, n, c1), (o2, n, c2)]) (n @ ''.md'') = Some (Some (rw c2 o2 n))"
    and "map_of (move_batch rw fs [(o1, n, c1), (o2, n, c2)]) (o1 @ ''.md'') = Some None"
    and "map_of (move_batch rw fs [(o1, n, c1), (o2, n, c2)]) (o2 @ ''.md'') = Some None"
  using assms by (simp_all add: move_batch_def update_conv')

text \<open>
  C10. There are inputs on which the move loses a note's content without reporting it.
  Whenever two distinct input ids share their basename, both have a file in the
  snapshot, and the destination key they share is valid and unoccupied, both are queued:
  the result reports two moved notes and no skipped one, the batch maps the destination
  key to the later note's rewritten content only and tombstones both old keys, and once
  the batch is applied the destination holds the later note and neither old key is left.
\<close>

theorem move_same_basename_loses_content:
  assumes "id1 \<noteq> id2"
    and "basename id1 = basename id2"
    and "map_of (markdownFiles w) (id1 @ ''.md'') = Some c1"
    and "map_of (markdownFiles w) (id2 @ ''.md'') = Some c2"
    and "valid (move_newId targetFolder id1)"
    and "map_of (markdownFiles w) (move_newId targetFolder id1 @ ''.md'') = None"
  shows "fst (moveNotesToFolder valid rw [id1, id2] targetFolder w) = MoveSuccess 2 []
     \<and> sent (snd (moveNotesToFolder valid rw [id1, id2] targetFolder w)) =
         sent w @ [WRITE_FILES
           (move_batch rw (markdownFiles w)
              [(id1, move_newId targetFolder id1, c1), (id2, move_newId targetFolder id1, c2)])
           (''Move 2 note(s) to '' @ (if targetFolder \<noteq> [] then targetFolder else ''root''))]
     \<and> map_of (move_batch rw (markdownFiles w)
              [(id1, move_newId targetFolder id1, c1), (id2, move_newId targetFolder id1, c2)])
          (move_newId targetFolder id1 @ ''.md'')
         = Some (Some (rw c2 id2 (move_newId targetFolder id1)))
     \<and> map_of (move_batch rw (markdownFiles w)
              [(id1, move_newId targetFolder id1, c1), (id2, move_newId targetFolder id1, c2)])
          (id1 @ ''.md'') = Some None
     \<and> map_of (move_batch rw (markdownFiles w)
              [(id1, move_newId targetFolder id1, c1), (id2, move_newId targetFolder id1, c2)])
          (id2 @ ''.md'') = Some None
     \<and> map_of (applyBatch (move_batch rw (markdownFiles w)
              [(id1, move_newId targetFolder id1, c1), (id2, move_newId targetFolder id1, c2)])
            (markdownFiles w)) (move_newId targetFolder id1 @ ''.md'')
         = Some (rw c2 id2 (move_newId targetFolder id1))
     \<and> map_of (applyBatch (move_batch rw (markdownFiles w)
              [(id1, move_newId targetFolder id1, c1), (id2, move_newId targetFolder id1, c2)])
            (markdownFiles w)) (id1 @ ''.md'') = None
     \<and> map_of (applyBatch (move_batch rw (markdownFiles w)
              [(id1, move_newId targetFolder id1, c1), (id2, move_newId targetFolder id1, c2)])
            (markdownFiles w)) (id2 @ ''.md'') = None"
proof -
  let ?n = "move_newId targetFolder id1"
  let ?moved = "[(id1, ?n, c1), (id2, ?n, c2)]"
  let ?B = "move_batch rw (markdownFiles w) ?moved"
  have n2: "move_newId targetFolder id2 = ?n"
    using assms(2) by (simp add: move_newId_def)
  have ne1: "?n \<noteq> id1" using assms(3,6) by auto
  have ne2: "?n \<noteq> id2" using assms(4,6) by auto
  have sel: "move_select valid (markdownFiles w) targetFolder [id1, id2] [] [] = (?moved, [])"
    using assms(3-6) ne1 ne2 by (simp add: n2)
  have two: "show_nat (Suc (Suc 0)) = ''2''" by (simp add: show_nat.simps)
  have res: "fst (moveNotesToFolder valid rw [id1, id2] targetFolder w) = MoveSuccess 2 []"
    unfolding moveNotesToFolder_def sel by (simp add: Let_def)
  have snt: "sent (snd (moveNotesToFolder valid rw [id1, id2] targetFolder w)) =
         sent w @ [WRITE_FILES ?B
           (''Move 2 note(s) to '' @ (if targetFolder \<noteq> [] then targetFolder else ''root''))]"
    unfolding moveNotesToFolder_def sel by (simp add: Let_def send_def two)
  note b = move_batch_two [OF assms(1) ne1 ne2, of rw "markdownFiles w" c1 c2]
  have a: "map_of (applyBatch ?B (markdownFiles w)) (?n @ ''.md'') = Some (rw c2 id2 ?n)"
      "map_of (applyBatch ?B (markdownFiles w)) (id1 @ ''.md'') = None"
      "map_of (applyBatch ?B (markdownFiles w)) (id2 @ ''.md'') = None"
    by (simp_all add: map_of_applyBatch [OF distinct_move_batch] b)
  from res snt b a show ?thesis by blast
qed

theorem move_same_basename_loses_content_witness:
  "''a/n'' \<noteq> ''c/n'' \<and> basename ''a/n'' = basename ''c/n''
   \<and> fst (moveNotesToFolder isValidNoteId updateWikilinks [''a/n'', ''c/n''] ''b''
        \<lparr>markdownFiles = [(''a/n.md'', ''first''), (''c/n.md'', ''second'')],
         virtualFolders = [], sent = []\<rparr>) = MoveSuccess 2 []
   \<and> map_of (applyBatch (move_batch updateWikilinks
                [(''a/n.md'', ''first''), (''c/n.md'', ''second'')]
                [(''a/n'', ''b/n'', ''first''), (''c/n'', ''b/n'', ''second'')])
              [(''a/n.md'', ''first''), (''c/n.md'', ''second'')]) ''b/n.md'' = Some ''second''
   \<and> applyBatch (move_batch updateWikilinks
                [(''a/n.md'', ''first''), (''c/n.md'', ''second'')]
                [(''a/n'', ''b/n'', ''first''), (''c/n'', ''b/n'', ''second'')])
              [(''a/n.md'', ''first''), (''c/n.md'', ''second'')] = [(''b/n.md'', ''second'')]"
proof -
  let ?w = "\<lparr>markdownFiles = [(''a/n.md'', ''first''), (''c/n.md'', ''second'')],
         virtualFolders = [], sent = []\<rparr>"
  have n: "move_newId ''b'' ''a/n'' = ''b/n''"
    by (simp add: move_newId_def basename_def)
  have h1: "''a/n'' \<noteq> ''c/n''" by simp
  have h2: "basename ''a/n'' = basename ''c/n''" by (simp add: basename_def)
  have h3: "map_of (markdownFiles ?w) (''a/n'' @ ''.md'') = Some ''first''" by simp
  have h4: "map_of (markdownFiles ?w) (''c/n'' @ ''.md'') = Some ''second''" by simp
  have h5: "isValidNoteId (move_newId ''b'' ''a/n'')"
    by (simp add: n isValidNoteId_def isValidSegment_def is_id_char_def is_lower_letter_def
        is_digit_def)
  have h6: "map_of (markdownFiles ?w) (move_newId ''b'' ''a/n'' @ ''.md'') = None"
    by (simp add: n)
  have e: "applyBatch (move_batch updateWikilinks
                [(''a/n.md'', ''first''), (''c/n.md'', ''second'')]
                [(''a/n'', ''b/n'', ''first''), (''c/n'', ''b/n'', ''second'')])
              [(''a/n.md'', ''first''), (''c/n.md'', ''second'')] = [(''b/n.md'', ''second'')]"
    by (simp add: move_batch_def)
  from move_same_basename_loses_content
    [of "''a/n''" "''c/n''" ?w "''first''" "''second''" isValidNoteId "''b''" updateWikilinks,
     OF h1 h2 h3 h4 h5 h6]
  have "fst (moveNotesToFolder isValidNoteId updateWikilinks [''a/n'', ''c/n''] ''b'' ?w)
          = MoveSuccess 2 []"
    and "map_of (applyBatch (move_batch updateWikilinks (markdownFiles ?w)
              [(''a/n'', move_newId ''b'' ''a/n'', ''first''),
               (''c/n'', move_newId ''b'' ''a/n'', ''second'')])
            (markdownFiles ?w)) (move_newId ''b'' ''a/n'' @ ''.md'')
         = Some (updateWikilinks ''second'' ''c/n'' (move_newId ''b'' ''a/n''))"
    by blast+
  then show ?thesis using h1 h2 e by (simp add: n)
qed

section \<open>Move: references between notes that move together\<close>

text \<open>
  C1. The relocated file is written with its content rewritten for its own pair only.
  With \<open>a/x\<close> holding \<open>[[a/y]]\<close> and both \<open>a/x\<close> and \<open>a/y\<close> moved into \<open>b\<close>,
  the batch writes \<open>b/x.md\<close> with \<open>[[a/y]]\<close> and deletes \<open>a/y.md\<close>: after the batch
  the file set holds a reference to an id that is gone, where one rewrite per queued
  pair would have given \<open>[[b/y]]\<close>.
\<close>

theorem move_leaves_dangling_reference:
  "moveNotesToFolder isValidNoteId updateWikilinks [''a/x'', ''a/y''] ''b''
     \<lparr>markdownFiles = [(''a/x.md'', ''[[a/y]]''), (''a/y.md'', ''hello'')],
      virtualFolders = [], sent = []\<rparr>
   = (MoveSuccess 2 [],
      \<lparr>markdownFiles = [(''a/x.md'', ''[[a/y]]''), (''a/y.md'', ''hello'')],
       virtualFolders = [],
       sent = [WRITE_FILES
                 [(''a/x.md'', None), (''b/x.md'', Some ''[[a/y]]''),
                  (''b/y.md'', Some ''hello''), (''a/y.md'', None)]
                 ''Move 2 note(s) to b'']\<rparr>)
   \<and> applyBatch [(''a/x.md'', None), (''b/x.md'', Some ''[[a/y]]''),
                  (''b/y.md'', Some ''hello''), (''a/y.md'', None)]
        [(''a/x.md'', ''[[a/y]]''), (''a/y.md'', ''hello'')]
     = [(''b/x.md'', ''[[a/y]]''), (''b/y.md'', ''hello'')]
   \<and> rewrite_all updateWikilinks [(''a/x'', ''b/x'', ''[[a/y]]''), (''a/y'', ''b/y'', ''hello'')] ''[[a/y]]''
     = ''[[b/y]]''"
  by (simp add: moveNotesToFolder_def move_newId_def basename_def isValidNoteId_def
      isValidSegment_def is_id_char_def is_lower_letter_def is_digit_def Let_def
      folderPrefixesToRemove_def getFolderPrefixes_def move_batch_def send_def show_nat.simps)

section \<open>The tag cloud\<close>

lemma map_of_count_tags:
  "map_of (count_tags ts fm) t =
     (if t \<in> set ts
      then Some ((case map_of fm t of None \<Rightarrow> 0 | Some n \<Rightarrow> n) + count_list ts t)
      else map_of fm t)"
  by (induction ts arbitrary: fm) (auto simp: update_conv')

lemma distinct_count_tags:
  "distinct (map fst fm) \<Longrightarrow> distinct (map fst (count_tags ts fm))"
  by (induction ts arbitrary: fm) (auto simp: distinct_update)

lemma remdups_snoc: "remdups (xs @ [x]) = filter (\<lambda>y. y \<noteq> x) (remdups xs) @ [x]"
  by (induction xs) auto

lemma first_seen_Cons:
  "rev (remdups (rev (x # xs))) = x # filter (\<lambda>y. y \<noteq> x) (rev (remdups (rev xs)))"
  by (simp add: remdups_snoc rev_filter)

lemma keys_count_tags:
  "map fst (count_tags ts fm) =
     map fst fm @ filter (\<lambda>t. t \<notin> fst ` set fm) (rev (remdups (rev ts)))"
proof (induction ts arbitrary: fm)
  case Nil
  show ?case by simp
next
  case (Cons t ts)
  show ?case
    unfolding count_tags.simps Cons.IH first_seen_Cons
    by (auto simp: update_keys dom_update intro!: filter_cong)
qed

lemma keys_frequencyEntries:
  "map fst (frequencyEntries R) = rev (remdups (rev (concat (map tags R))))"
  by (simp add: frequencyEntries_def keys_count_tags)

lemma distinct_frequencyEntries: "distinct (map fst (frequencyEntries R))"
  by (simp add: frequencyEntries_def distinct_count_tags)

lemma map_of_frequencyEntries:
  "map_of (frequencyEntries R) t =
     (if t \<in> set (concat (map tags R)) then Some (count_list (concat (map tags R)) t) else None)"
  by (simp add: frequencyEntries_def map_of_count_tags)

lemma count_list_distinct: "distinct xs \<Longrightarrow> count_list xs t = (if t \<in> set xs then 1 else 0)"
  by (induction xs) auto

lemma count_list_concat_tags:
  "list_all (\<lambda>n. distinct (tags n)) R \<Longrightarrow>
   count_list (concat (map tags R)) t = length (filter (\<lambda>n. t \<in> set (tags n)) R)"
  by (induction R) (auto simp: count_list_distinct)

lemma set_sortedTagFrequencies:
  "set (sortedTagFrequencies R) =
     {e \<in> set (frequencyEntries R). snd e < length R \<and> keep_tag (frequencyEntries R) e}"
  by (auto simp: sortedTagFrequencies_def)

lemma keep_tag_iff:
  "keep_tag entries (t, c) \<longleftrightarrow>
     ((\<exists>t' c'. (t', c') \<in> set entries \<and> t' \<noteq> t \<and> prefix t t') \<longrightarrow>
      (\<exists>t' c'. (t', c') \<in> set entries \<and> t' \<noteq> t \<and> prefix t t' \<and> c' \<noteq> c))"
proof -
  let ?ch = "filter (\<lambda>(otherTag, otherFrequency). otherTag \<noteq> t \<and> prefix t otherTag) entries"
  have e: "?ch = [] \<longleftrightarrow> \<not> (\<exists>t' c'. (t', c') \<in> set entries \<and> t' \<noteq> t \<and> prefix t t')"
    by (auto simp: filter_empty_conv)
  have a: "list_all (\<lambda>(otherTag, otherFrequency). otherFrequency = c) ?ch
        \<longleftrightarrow> \<not> (\<exists>t' c'. (t', c') \<in> set entries \<and> t' \<noteq> t \<and> prefix t t' \<and> c' \<noteq> c)"
    by (auto simp: list_all_iff) (blast?)
  show ?thesis
    unfolding keep_tag_def childTags_def fst_conv snd_conv length_0_conv e a by auto
qed

lemma sorted_sortedTagFrequencies:
  "sorted_wrt (\<lambda>a b. snd b \<le> snd a) (sortedTagFrequencies R)"
proof -
  have "sorted (map (\<lambda>(tag, frequency). - int frequency) (sortedTagFrequencies R))"
    by (simp add: sortedTagFrequencies_def)
  then show ?thesis
    by (simp add: sorted_map case_prod_beta)
qed

lemma stable_sortedTagFrequencies:
  "filter (\<lambda>e. snd e = k) (sortedTagFrequencies R) =
   filter (\<lambda>e. snd e = k \<and> e \<in> set (sortedTagFrequencies R)) (frequencyEntries R)"
proof -
  let ?f = "\<lambda>(tag, frequency). - int frequency"
  let ?xs = "filter (keep_tag (frequencyEntries R))
          (filter (\<lambda>(tag, frequency). frequency < length R) (frequencyEntries R))"
  have eq: "(\<lambda>e. snd e = k) = (\<lambda>e. ?f e = - int k)"
    by (auto simp: case_prod_beta)
  have "filter (\<lambda>e. snd e = k) (sortedTagFrequencies R) = filter (\<lambda>e. snd e = k) ?xs"
    unfolding eq sortedTagFrequencies_def by (rule sort_key_stable)
  also have "\<dots> = filter (\<lambda>e. snd e = k \<and> e \<in> set (sortedTagFrequencies R)) (frequencyEntries R)"
    by (auto simp: set_sortedTagFrequencies intro!: filter_cong)
  finally show ?thesis .
qed

lemma frequencyEntries_mem:
  "(t, c) \<in> set (frequencyEntries R) \<longleftrightarrow> map_of (frequencyEntries R) t = Some c"
  using distinct_frequencyEntries [of R] by (auto dest: map_of_SomeD)

text \<open>
  C8, as the claim states it, fails when a note lists a tag twice: the count is the number
  of occurrences of the tag, not the number of notes carrying it.
\<close>

theorem tag_counts_too_high_with_repeated_tag:
  "map_of (frequencyEntries [\<lparr>tags = [''x'', ''x'']\<rparr>, \<lparr>tags = [''y'']\<rparr>]) ''x'' = Some 2
   \<and> length (filter (\<lambda>n. ''x'' \<in> set (tags n)) [\<lparr>tags = [''x'', ''x'']\<rparr>, \<lparr>tags = [''y'']\<rparr>]) = 1"
  by (simp add: frequencyEntries_def)

text \<open>
  C8, amended. For every result set in which no note lists a tag twice, the count of a
  tag is the number of notes carrying it, a tag that no note carries has no entry, every
  displayed entry has this count, and a tag whose count equals the size of the result
  set is not displayed.
\<close>

theorem tag_counts_without_repeated_tags:
  assumes "list_all (\<lambda>n. distinct (tags n)) R"
  shows "map_of (frequencyEntries R) t =
           (if t \<in> set (concat (map tags R))
            then Some (length (filter (\<lambda>n. t \<in> set (tags n)) R)) else None)
     \<and> ((t, c) \<in> set (sortedTagFrequencies R) \<longrightarrow>
           c = length (filter (\<lambda>n. t \<in> set (tags n)) R) \<and> c < length R)
     \<and> (length (filter (\<lambda>n. t \<in> set (tags n)) R) = length R \<longrightarrow>
           t \<notin> fst ` set (sortedTagFrequencies R))"
proof -
  have m: "map_of (frequencyEntries R) t =
           (if t \<in> set (concat (map tags R))
            then Some (length (filter (\<lambda>n. t \<in> set (tags n)) R)) else None)" for t
    by (simp only: map_of_frequencyEntries count_list_concat_tags [OF assms])
  have in_res: "c' = length (filter (\<lambda>n. t' \<in> set (tags n)) R) \<and> c' < length R"
    if "(t', c') \<in> set (sortedTagFrequencies R)" for t' c'
  proof -
    from that have e: "(t', c') \<in> set (frequencyEntries R)" and lt: "c' < length R"
      by (auto simp: set_sortedTagFrequencies)
    from e have "map_of (frequencyEntries R) t' = Some c'"
      by (simp add: frequencyEntries_mem)
    with m [of t'] lt show ?thesis by (auto split: if_splits)
  qed
  have excl: "t \<notin> fst ` set (sortedTagFrequencies R)"
    if "length (filter (\<lambda>n. t \<in> set (tags n)) R) = length R"
  proof
    assume "t \<in> fst ` set (sortedTagFrequencies R)"
    then obtain c' where "(t, c') \<in> set (sortedTagFrequencies R)" by force
    from in_res [OF this] that show False by auto
  qed
  from m in_res excl show ?thesis by blast
qed

theorem tag_counts_without_repeated_tags_witness:
  "list_all (\<lambda>n. distinct (tags n)) [\<lparr>tags = [''x'', ''y'']\<rparr>, \<lparr>tags = [''x'']\<rparr>]
   \<and> map_of (frequencyEntries [\<lparr>tags = [''x'', ''y'']\<rparr>, \<lparr>tags = [''x'']\<rparr>]) ''x'' = Some 2
   \<and> ''x'' \<notin> fst ` set (sortedTagFrequencies [\<lparr>tags = [''x'', ''y'']\<rparr>, \<lparr>tags = [''x'']\<rparr>])"
proof -
  let ?R = "[\<lparr>tags = [''x'', ''y'']\<rparr>, \<lparr>tags = [''x'']\<rparr>]"
  have d: "list_all (\<lambda>n. distinct (tags n)) ?R" by simp
  from tag_counts_without_repeated_tags [OF d, of "''x''" 0] d show ?thesis by simp
qed

text \<open>
  C9, as the claim states it, fails on the notes \<open>[x, x/y]\<close> and \<open>[x]\<close>: the tag \<open>x\<close>
  has the descendant \<open>x/y\<close> with a different count and is dropped nevertheless,
  because its count equals the size of the result set.
\<close>

theorem parent_tag_shared_by_all_is_dropped:
  "(''x'', 2) \<in> set (frequencyEntries [\<lparr>tags = [''x'', ''x/y'']\<rparr>, \<lparr>tags = [''x'']\<rparr>])
   \<and> (''x/y'', 1) \<in> set (frequencyEntries [\<lparr>tags = [''x'', ''x/y'']\<rparr>, \<lparr>tags = [''x'']\<rparr>])
   \<and> ''x/y'' \<noteq> ''x'' \<and> prefix ''x'' ''x/y'' \<and> (1::nat) \<noteq> 2
   \<and> (''x'', 2) \<notin> set (sortedTagFrequencies [\<lparr>tags = [''x'', ''x/y'']\<rparr>, \<lparr>tags = [''x'']\<rparr>])"
  by (simp add: frequencyEntries_def sortedTagFrequencies_def keep_tag_def childTags_def)

text \<open>
  C9, amended. A tag whose count is below the size of the result set and that has at
  least one other tag starting with it is displayed exactly when some such descendant
  has a different count (it is dropped exactly when all of them have its count). For
  every result set, the displayed entries are in descending order of count, and entries
  of equal count keep the order in which their tags were first met.
\<close>

theorem parent_tag_pruning:
  "((t, c) \<in> set (frequencyEntries R) \<and> c < length R
      \<and> (\<exists>t' c'. (t', c') \<in> set (frequencyEntries R) \<and> t' \<noteq> t \<and> prefix t t')
     \<longrightarrow> ((t, c) \<in> set (sortedTagFrequencies R) \<longleftrightarrow>
           (\<exists>t' c'. (t', c') \<in> set (frequencyEntries R) \<and> t' \<noteq> t \<and> prefix t t' \<and> c' \<noteq> c)))
   \<and> sorted_wrt (\<lambda>a b. snd b \<le> snd a) (sortedTagFrequencies R)
   \<and> filter (\<lambda>e. snd e = k) (sortedTagFrequencies R) =
       filter (\<lambda>e. snd e = k \<and> e \<in> set (sortedTagFrequencies R)) (frequencyEntries R)
   \<and> map fst (frequencyEntries R) = rev (remdups (rev (concat (map tags R))))"
proof -
  have pruning: "(t, c) \<in> set (sortedTagFrequencies R) \<longleftrightarrow>
      (\<exists>t' c'. (t', c') \<in> set (frequencyEntries R) \<and> t' \<noteq> t \<and> prefix t t' \<and> c' \<noteq> c)"
    if e: "(t, c) \<in> set (frequencyEntries R)" and lt: "c < length R"
      and d: "\<exists>t' c'. (t', c') \<in> set (frequencyEntries R) \<and> t' \<noteq> t \<and> prefix t t'"
  proof -
    have "(t, c) \<in> set (sortedTagFrequencies R) \<longleftrightarrow> keep_tag (frequencyEntries R) (t, c)"
      using e lt by (simp add: set_sortedTagFrequencies)
    also have "\<dots> \<longleftrightarrow>
        (\<exists>t' c'. (t', c') \<in> set (frequencyEntries R) \<and> t' \<noteq> t \<and> prefix t t' \<and> c' \<noteq> c)"
      using d by (simp only: keep_tag_iff simp_thms)
    finally show ?thesis .
  qed
  have ordered: "sorted_wrt (\<lambda>a b. snd b \<le> snd a) (sortedTagFrequencies R)"
    by (rule sorted_sortedTagFrequencies)
  have stable: "filter (\<lambda>e. snd e = k) (sortedTagFrequencies R) =
       filter (\<lambda>e. snd e = k \<and> e \<in> set (sortedTagFrequencies R)) (frequencyEntries R)"
    by (rule stable_sortedTagFrequencies)
  have met: "map fst (frequencyEntries R) = rev (remdups (rev (concat (map tags R))))"
    by (rule keys_frequencyEntries)
  from pruning ordered stable met show ?thesis by blast
qed

theorem parent_tag_pruning_witness:
  "(''x'', 2) \<in> set (frequencyEntries [\<lparr>tags = [''x'', ''x/y'']\<rparr>, \<lparr>tags = [''x'']\<rparr>, \<lparr>tags = [''z'']\<rparr>])
   \<and> (2::nat) < length [\<lparr>tags = [''x'', ''x/y'']\<rparr>, \<lparr>tags = [''x'']\<rparr>, \<lparr>tags = [''z'']\<rparr>]
   \<and> (''x/y'', 1) \<in> set (frequencyEntries [\<lparr>tags = [''x'', ''x/y'']\<rparr>, \<lparr>tags = [''x'']\<rparr>, \<lparr>tags = [''z'']\<rparr>])
   \<and> (''x'', 2) \<in> set (sortedTagFrequencies [\<lparr>tags = [''x'', ''x/y'']\<rparr>, \<lparr>tags = [''x'']\<rparr>, \<lparr>tags = [''z'']\<rparr>])
   \<and> map fst (frequencyEntries [\<lparr>tags = [''x'', ''x/y'']\<rparr>, \<lparr>tags = [''x'']\<rparr>, \<lparr>tags = [''z'']\<rparr>])
       = [''x'', ''x/y'', ''z'']
   \<and> sortedTagFrequencies [\<lparr>tags = [''x'', ''x/y'']\<rparr>, \<lparr>tags = [''x'']\<rparr>, \<lparr>tags = [''z'']\<rparr>]
       = [(''x'', 2), (''x/y'', 1), (''z'', 1)]"
proof -
  let ?R = "[\<lparr>tags = [''x'', ''x/y'']\<rparr>, \<lparr>tags = [''x'']\<rparr>, \<lparr>tags = [''z'']\<rparr>]"
  have f: "frequencyEntries ?R = [(''x'', 2), (''x/y'', 1), (''z'', 1)]"
    by (simp add: frequencyEntries_def)
  have r: "sortedTagFrequencies ?R = [(''x'', 2), (''x/y'', 1), (''z'', 1)]"
    by (simp add: sortedTagFrequencies_def f keep_tag_def childTags_def)
  have h1: "(''x'', 2) \<in> set (frequencyEntries ?R)" by (simp add: f)
  have h2: "(2::nat) < length ?R" by simp
  have h3: "\<exists>t' c'. (t', c') \<in> set (frequencyEntries ?R) \<and> t' \<noteq> ''x'' \<and> prefix ''x'' t'"
    by (rule exI [of _ "''x/y''"], rule exI [of _ 1]) (simp add: f)
  have h4: "\<exists>t' c'. (t', c') \<in> set (frequencyEntries ?R) \<and> t' \<noteq> ''x'' \<and> prefix ''x'' t' \<and> c' \<noteq> 2"
    by (rule exI [of _ "''x/y''"], rule exI [of _ 1]) (simp add: f)
  from parent_tag_pruning [of "''x''" 2 ?R 1] h1 h2 h3 h4
  have "(''x'', 2) \<in> set (sortedTagFrequencies ?R)"
    and "map fst (frequencyEntries ?R) = rev (remdups (rev (concat (map tags ?R))))"
    by blast+
  then show ?thesis using h1 h2 r by (simp add: f)
qed

section \<open>Slugs and valid identifiers\<close>

lemma js_split_pieces: "p \<in> set (js_split d s) \<Longrightarrow> d \<notin> set p \<and> set p \<subseteq> set s"
proof (induction s arbitrary: p)
  case Nil
  then show ?case by simp
next
  case (Cons c cs)
  show ?case
  proof (cases "c = d")
    case True
    with Cons show ?thesis by auto
  next
    case False
    obtain q qs where q: "js_split d cs = q # qs"
      using js_split_not_Nil [of d cs] by (cases "js_split d cs") auto
    from Cons.prems False q have "p = c # q \<or> p \<in> set qs" by auto
    then show ?thesis
    proof
      assume "p = c # q"
      with Cons.IH [of q] q False show ?thesis by auto
    next
      assume "p \<in> set qs"
      with Cons.IH [of p] q show ?thesis by auto
    qed
  qed
qed

lemma js_split_append_sep:
  "d \<notin> set p \<Longrightarrow> js_split d (p @ d # rest) = p # js_split d rest"
  by (induction p) auto

lemma js_split_join:
  "segs \<noteq> [] \<Longrightarrow> (\<forall>p \<in> set segs. d \<notin> set p) \<Longrightarrow> js_split d (js_join [d] segs) = segs"
proof (induction "[d]" segs rule: js_join.induct)
  case 1
  then show ?case by simp
next
  case (2 x)
  then show ?case by (simp add: js_split_no_sep)
next
  case (3 x y ys)
  then show ?case by (simp add: js_split_append_sep)
qed

lemma map_js_join: "map f (js_join d xs) = js_join (map f d) (map (map f) xs)"
  by (induction d xs rule: js_join.induct) simp_all

lemma set_js_join: "set (js_join d xs) \<subseteq> \<Union> (set ` set xs) \<union> set d"
  by (induction d xs rule: js_join.induct) auto

lemma double_dash_units_Cons:
  "double_dash_units (a # xs) = ((a = 0x2D \<and> xs \<noteq> [] \<and> hd xs = 0x2D) \<or> double_dash_units xs)"
  by (cases xs) auto

lemma double_dash_units_snoc:
  "double_dash_units (xs @ [a]) =
     ((xs \<noteq> [] \<and> last xs = 0x2D \<and> a = 0x2D) \<or> double_dash_units xs)"
proof (induction xs)
  case Nil
  show ?case by simp
next
  case (Cons x xs)
  then show ?case by (cases xs) (auto simp: double_dash_units_Cons)
qed

lemma set_replace_runs:
  "set (replace_runs P s) \<subseteq> {c \<in> set s. \<not> P c} \<union> {0x2D}"
proof (induction P s rule: replace_runs.induct)
  case (1 P)
  show ?case by simp
next
  case (2 P c cs)
  show ?case
  proof (cases "P c")
    case True
    have "set (dropWhile P cs) \<subseteq> set cs" by (auto dest: set_dropWhileD)
    with 2(1) [OF True] True show ?thesis by auto
  next
    case False
    with 2(2) [OF False] show ?thesis by auto
  qed
qed

lemma hd_replace_runs:
  "s \<noteq> [] \<Longrightarrow> \<not> P (hd s) \<Longrightarrow> replace_runs P s \<noteq> [] \<and> hd (replace_runs P s) = hd s"
  by (cases s) auto

lemma no_double_dash_replace_runs:
  assumes "\<And>c. P c \<longleftrightarrow> c = 0x2D"
  shows "\<not> double_dash_units (replace_runs P s)"
  using assms
proof (induction P s rule: replace_runs.induct)
  case (1 P)
  show ?case by simp
next
  case (2 P c cs)
  show ?case
  proof (cases "P c")
    case True
    let ?r = "replace_runs P (dropWhile P cs)"
    have ih: "\<not> double_dash_units ?r" using 2(1) [OF True] 2(3) by blast
    have "?r \<noteq> [] \<Longrightarrow> hd ?r \<noteq> 0x2D"
    proof -
      assume ne: "?r \<noteq> []"
      have d: "dropWhile P cs \<noteq> []"
      proof
        assume "dropWhile P cs = []"
        then have "?r = []" by (simp only: replace_runs.simps)
        with ne show False by contradiction
      qed
      then have "\<not> P (hd (dropWhile P cs))" by (rule hd_dropWhile)
      with hd_replace_runs [OF d] 2(3) show ?thesis by auto
    qed
    with ih True show ?thesis by (auto simp: double_dash_units_Cons)
  next
    case False
    have "\<not> double_dash_units (replace_runs P cs)" using 2(2) [OF False] 2(3) by blast
    moreover from False 2(3) have "c \<noteq> 0x2D" by blast
    ultimately show ?thesis using False by (simp add: double_dash_units_Cons)
  qed
qed

lemma strip_dashes_shape:
  assumes "\<not> double_dash_units s" and "strip_dashes s \<noteq> []"
  shows "dash_shaped (strip_dashes s)"
proof -
  define s1 where "s1 = (case s of [] \<Rightarrow> [] | c # cs \<Rightarrow> if c = 0x2D then cs else c # cs)"
  have t: "strip_dashes s = (if s1 \<noteq> [] \<and> last s1 = 0x2D then butlast s1 else s1)"
    by (simp add: strip_dashes_def s1_def)
  have dd1: "\<not> double_dash_units s1"
    using assms(1) by (cases s) (auto simp: s1_def double_dash_units_Cons)
  have hd1: "s1 \<noteq> [] \<Longrightarrow> hd s1 \<noteq> 0x2D"
    using assms(1) by (cases s) (auto simp: s1_def double_dash_units_Cons)
  show ?thesis
  proof (cases "s1 \<noteq> [] \<and> last s1 = 0x2D")
    case True
    then have eq: "butlast s1 @ [last s1] = s1" by (intro append_butlast_last_id) simp
    from t True have tb: "strip_dashes s = butlast s1" by simp
    with assms(2) have ne: "butlast s1 \<noteq> []" by simp
    from dd1 eq have "\<not> double_dash_units (butlast s1 @ [last s1])" by simp
    then have dd: "\<not> double_dash_units (butlast s1)" and l: "last (butlast s1) \<noteq> 0x2D"
      using ne True by (auto simp: double_dash_units_snoc)
    have "hd (butlast s1) = hd s1"
      using ne eq by (metis hd_append2)
    with hd1 True have h: "hd (butlast s1) \<noteq> 0x2D" by simp
    from ne dd l h show ?thesis by (simp add: dash_shaped_def tb)
  next
    case False
    with t have ts: "strip_dashes s = s1" by simp
    with assms(2) have ne: "s1 \<noteq> []" by simp
    with False have "last s1 \<noteq> 0x2D" by simp
    with ne dd1 hd1 show ?thesis by (simp add: dash_shaped_def ts)
  qed
qed

lemma set_strip_dashes: "set (strip_dashes s) \<subseteq> set s"
proof -
  define s1 where "s1 = (case s of [] \<Rightarrow> [] | c # cs \<Rightarrow> if c = 0x2D then cs else c # cs)"
  have "set s1 \<subseteq> set s" by (cases s) (auto simp: s1_def)
  moreover have "strip_dashes s = (if s1 \<noteq> [] \<and> last s1 = 0x2D then butlast s1 else s1)"
    by (simp add: strip_dashes_def s1_def)
  ultimately show ?thesis by (auto dest: in_set_butlastD)
qed

lemma set_trim: "set (trim s) \<subseteq> set s"
proof -
  have d: "set (dropWhile P xs) \<subseteq> set xs" for P and xs :: jsstring
    by (auto dest: set_dropWhileD)
  have "set (trim s) = set (dropWhile is_space (rev (dropWhile is_space s)))"
    by (simp add: trim_def)
  also have "\<dots> \<subseteq> set (rev (dropWhile is_space s))" by (rule d)
  also have "\<dots> \<subseteq> set s" using d [of is_space s] by simp
  finally show ?thesis .
qed

lemma slugifySegment_shape:
  "slugifySegment toLowerCase seg \<noteq> [] \<Longrightarrow> dash_shaped (slugifySegment toLowerCase seg)"
  unfolding slugifySegment_def
  by (rule strip_dashes_shape) (simp_all add: no_double_dash_replace_runs)

lemma set_slugifySegment:
  "set (slugifySegment toLowerCase seg) \<subseteq>
     {c \<in> set (toLowerCase (trim seg)). \<not> is_space c} \<union> {0x2D}"
proof -
  have "set (slugifySegment toLowerCase seg)
          \<subseteq> set (replace_runs (\<lambda>u. u = 0x2D) (replace_runs is_space (toLowerCase (trim seg))))"
    unfolding slugifySegment_def by (rule set_strip_dashes)
  also have "\<dots> \<subseteq> set (replace_runs is_space (toLowerCase (trim seg))) \<union> {0x2D}"
    using set_replace_runs [of "\<lambda>u. u = 0x2D" "replace_runs is_space (toLowerCase (trim seg))"]
    by auto
  also have "\<dots> \<subseteq> {c \<in> set (toLowerCase (trim seg)). \<not> is_space c} \<union> {0x2D}"
    using set_replace_runs [of is_space "toLowerCase (trim seg)"] by auto
  finally show ?thesis .
qed

lemma toSlug_segments:
  assumes "\<forall>q \<in> set (js_split 0x2F x). 0x2F \<notin> set (toLowerCase (trim q))"
    and "toSlug toLowerCase x \<noteq> []"
  shows "js_split 0x2F (toSlug toLowerCase x)
           = filter (\<lambda>s. s \<noteq> []) (map (slugifySegment toLowerCase) (js_split 0x2F x))"
proof -
  let ?segs = "filter (\<lambda>s. s \<noteq> []) (map (slugifySegment toLowerCase) (js_split 0x2F x))"
  have ts: "toSlug toLowerCase x = js_join [0x2F] ?segs" by (simp add: toSlug_def)
  from assms(2) ts have ne: "?segs \<noteq> []" by auto
  have "0x2F \<notin> set p" if "p \<in> set ?segs" for p
  proof
    assume sl: "0x2F \<in> set p"
    from that obtain q where q: "q \<in> set (js_split 0x2F x)"
      and p: "p = slugifySegment toLowerCase q"
      by auto
    from sl p set_slugifySegment [of toLowerCase q] have "0x2F \<in> set (toLowerCase (trim q))"
      by auto
    with assms(1) q show False by blast
  qed
  then have "\<forall>p \<in> set ?segs. 0x2F \<notin> set p" by blast
  from js_split_join [OF ne this] ts show ?thesis by simp
qed

lemma toSlug_shape:
  assumes "\<forall>s. 0x2F \<notin> set s \<longrightarrow> 0x2F \<notin> set (toLowerCase s)"
    and "toSlug toLowerCase x \<noteq> []"
  shows "list_all dash_shaped (js_split 0x2F (toSlug toLowerCase x))"
proof -
  have "\<forall>q \<in> set (js_split 0x2F x). 0x2F \<notin> set (toLowerCase (trim q))"
  proof
    fix q assume "q \<in> set (js_split 0x2F x)"
    from js_split_pieces [OF this] set_trim [of q] have "0x2F \<notin> set (trim q)" by auto
    with assms(1) show "0x2F \<notin> set (toLowerCase (trim q))" by blast
  qed
  from toSlug_segments [OF this assms(2)] show ?thesis
    unfolding list_all_iff by (auto intro: slugifySegment_shape)
qed

lemma ascii_lower_plain:
  assumes "slug_input_unit u" and "u \<noteq> 0x2F"
  shows "(if 0x41 \<le> u \<and> u \<le> 0x5A then u + 0x20 else u)
           \<in> set (units ''abcdefghijklmnopqrstuvwxyz0123456789-'')
         \<or> is_space (if 0x41 \<le> u \<and> u \<le> 0x5A then u + 0x20 else u)"
  using assms unfolding slug_input_unit_def units_def is_space_def
  by (elim disjE) auto

lemma ascii_lower_not_slash:
  "u \<noteq> 0x2F \<Longrightarrow> (if 0x41 \<le> u \<and> u \<le> 0x5A then u + 0x20 else u) \<noteq> (0x2F::nat)"
  by auto

lemma ascii_toLowerCase_no_slash: "0x2F \<notin> set s \<Longrightarrow> 0x2F \<notin> set (ascii_toLowerCase s)"
  unfolding ascii_toLowerCase_def using ascii_lower_not_slash by (induction s) auto

lemma id_chars: "c \<in> set ''abcdefghijklmnopqrstuvwxyz0123456789-'' \<Longrightarrow> is_id_char c"
  by (auto simp: is_id_char_def is_lower_letter_def is_digit_def)

lemma id_unit_char:
  assumes "u \<in> set (units ''abcdefghijklmnopqrstuvwxyz0123456789-'')"
  shows "\<exists>c. is_id_char c \<and> u = of_char c"
proof -
  from assms have "u \<in> of_char ` set ''abcdefghijklmnopqrstuvwxyz0123456789-''"
    by (simp only: units_def set_map)
  then obtain c where c: "c \<in> set ''abcdefghijklmnopqrstuvwxyz0123456789-''"
    and u: "u = of_char c"
    by (rule imageE)
  from id_chars [OF c] u show ?thesis by blast
qed


lemma dash_unit: "(of_char c = (0x2D::nat)) = (c = CHR ''-'')"
proof -
  have "(of_char c = (of_char CHR ''-'' :: nat)) = (c = CHR ''-'')" by (rule of_char_eq_iff)
  then show ?thesis by simp
qed

lemma slash_unit: "(of_char c = (0x2F::nat)) = (c = CHR ''/'')"
proof -
  have "(of_char c = (of_char CHR ''/'' :: nat)) = (c = CHR ''/'')" by (rule of_char_eq_iff)
  then show ?thesis by simp
qed

lemma double_dash_units: "double_dash_units (units s) = double_dash s"
  by (induction s rule: double_dash.induct) (simp_all add: units_def dash_unit)

lemma toSlug_plain_segments:
  assumes low: "\<forall>s. list_all slug_input_unit s \<longrightarrow> toLowerCase s = ascii_toLowerCase s"
    and plain: "list_all slug_input_unit x"
    and ne: "toSlug toLowerCase x \<noteq> []"
  shows "js_split 0x2F (toSlug toLowerCase x)
           = filter (\<lambda>s. s \<noteq> []) (map (slugifySegment toLowerCase) (js_split 0x2F x))"
    and "\<forall>q \<in> set (js_split 0x2F x). \<forall>u \<in> set (slugifySegment toLowerCase q).
           \<exists>c. is_id_char c \<and> u = of_char c"
proof -
  have piece: "list_all slug_input_unit (trim q) \<and> 0x2F \<notin> set (trim q)"
    if "q \<in> set (js_split 0x2F x)" for q
    using js_split_pieces [OF that] set_trim [of q] plain by (auto simp: list_all_iff)
  have lowq: "toLowerCase (trim q) = ascii_toLowerCase (trim q)"
    if "q \<in> set (js_split 0x2F x)" for q
    using piece [OF that] low by blast
  have "\<forall>q \<in> set (js_split 0x2F x). 0x2F \<notin> set (toLowerCase (trim q))"
    using piece lowq ascii_toLowerCase_no_slash by auto
  from toSlug_segments [OF this ne]
  show "js_split 0x2F (toSlug toLowerCase x)
           = filter (\<lambda>s. s \<noteq> []) (map (slugifySegment toLowerCase) (js_split 0x2F x))" .
  show "\<forall>q \<in> set (js_split 0x2F x). \<forall>u \<in> set (slugifySegment toLowerCase q).
           \<exists>c. is_id_char c \<and> u = of_char c"
  proof (intro ballI)
    fix q u
    assume q: "q \<in> set (js_split 0x2F x)" and u: "u \<in> set (slugifySegment toLowerCase q)"
    show "\<exists>c. is_id_char c \<and> u = of_char c"
    proof (cases "u = 0x2D")
      case True
      have "is_id_char CHR ''-''" by (simp add: is_id_char_def)
      moreover from True have "u = of_char CHR ''-''" by simp
      ultimately show ?thesis by blast
    next
      case False
      with u set_slugifySegment [of toLowerCase q]
      have "u \<in> set (toLowerCase (trim q))" and ns: "\<not> is_space u" by auto
      then have "u \<in> set (ascii_toLowerCase (trim q))" by (simp add: lowq [OF q])
      then obtain v where v: "v \<in> set (trim q)"
        and uv: "u = (if 0x41 \<le> v \<and> v \<le> 0x5A then v + 0x20 else v)"
        unfolding ascii_toLowerCase_def by auto
      from piece [OF q] v have "slug_input_unit v" "v \<noteq> 0x2F" by (auto simp: list_all_iff)
      from ascii_lower_plain [OF this] uv ns
      have "u \<in> set (units ''abcdefghijklmnopqrstuvwxyz0123456789-'')" by simp
      then show ?thesis by (rule id_unit_char)
    qed
  qed
qed

lemma units_decode:
  assumes "\<forall>u \<in> set seg. \<exists>c. P c \<and> u = of_char c"
  shows "\<exists>t. seg = units t \<and> list_all P t"
  using assms
proof (induction seg)
  case Nil
  have "[] = units [] \<and> list_all P []" by (simp add: units_def)
  then show ?case by blast
next
  case (Cons u seg)
  then obtain t where t: "seg = units t" "list_all P t" by auto
  from Cons.prems obtain c where c: "P c" "u = of_char c" by auto
  from t c have "u # seg = units (c # t) \<and> list_all P (c # t)" by (simp add: units_def)
  then show ?case by (rule exI)
qed

lemma units_decode_all:
  assumes "\<forall>seg \<in> set segs. \<forall>u \<in> set seg. \<exists>c. P c \<and> u = of_char c"
  shows "\<exists>ts. segs = map units ts \<and> list_all (list_all P) ts"
  using assms
proof (induction segs)
  case Nil
  have "[] = map units [] \<and> list_all (list_all P) []" by simp
  then show ?case by blast
next
  case (Cons seg segs)
  then obtain ts where ts: "segs = map units ts" "list_all (list_all P) ts" by auto
  from Cons.prems have "\<forall>u \<in> set seg. \<exists>c. P c \<and> u = of_char c" by simp
  from units_decode [OF this] obtain t where t: "seg = units t" "list_all P t" by blast
  from ts t have "seg # segs = map units (t # ts) \<and> list_all (list_all P) (t # ts)" by simp
  then show ?case by (rule exI)
qed

lemma units_js_join: "units (js_join ''/'' ts) = js_join [0x2F] (map units ts)"
proof -
  have "units (js_join ''/'' ts) = js_join (units ''/'') (map units ts)"
    unfolding units_def by (rule map_js_join)
  then show ?thesis by (simp add: units_def)
qed

lemma id_char_not_slash: "is_id_char c \<Longrightarrow> c \<noteq> CHR ''/''"
  by (auto simp: is_id_char_def is_lower_letter_def is_digit_def)

lemma valid_segment_of_units:
  assumes "dash_shaped (units t)" and "list_all is_id_char t"
  shows "isValidSegment t"
proof -
  from assms(1) have ne: "t \<noteq> []" by (auto simp: dash_shaped_def units_def)
  from assms(1) ne have "of_char (hd t) \<noteq> (0x2D::nat)" "of_char (last t) \<noteq> (0x2D::nat)"
    by (simp_all add: dash_shaped_def units_def hd_map last_map)
  then have "hd t \<noteq> CHR ''-''" "last t \<noteq> CHR ''-''" by (simp_all add: dash_unit)
  moreover from assms(1) have "\<not> double_dash t"
    by (simp add: dash_shaped_def double_dash_units)
  ultimately show ?thesis using ne assms(2) by (simp add: isValidSegment_def)
qed

lemma toSlug_plain_valid:
  assumes low: "\<forall>s. list_all slug_input_unit s \<longrightarrow> toLowerCase s = ascii_toLowerCase s"
    and plain: "list_all slug_input_unit x"
    and ne: "toSlug toLowerCase x \<noteq> []"
  shows "\<exists>s. toSlug toLowerCase x = units s \<and> isValidNoteId s"
proof -
  let ?segs = "filter (\<lambda>s. s \<noteq> []) (map (slugifySegment toLowerCase) (js_split 0x2F x))"
  note seg = toSlug_plain_segments [OF low plain ne]
  have ts: "toSlug toLowerCase x = js_join [0x2F] ?segs" by (simp add: toSlug_def)
  from ne ts have segs_ne: "?segs \<noteq> []" by auto
  have shape: "\<forall>p \<in> set ?segs. dash_shaped p"
    by (auto intro: slugifySegment_shape)
  have "\<forall>p \<in> set ?segs. \<forall>u \<in> set p. \<exists>c. is_id_char c \<and> u = of_char c"
    using seg(2) by auto
  from units_decode_all [OF this] obtain ts where
    d: "?segs = map units ts" and idc: "list_all (list_all is_id_char) ts" by blast
  from segs_ne d have ts_ne: "ts \<noteq> []" by auto
  have out: "toSlug toLowerCase x = units (js_join ''/'' ts)"
    by (simp only: ts d units_js_join)
  have "\<forall>t \<in> set ts. CHR ''/'' \<notin> set t"
    using idc id_char_not_slash by (auto simp: list_all_iff)
  from js_split_join [OF ts_ne this] have split: "js_split CHR ''/'' (js_join ''/'' ts) = ts"
    by simp
  have "isValidSegment t" if "t \<in> set ts" for t
  proof -
    from that d have "units t \<in> set ?segs" by (metis image_eqI set_map)
    with shape have "dash_shaped (units t)" by blast
    moreover from that idc have "list_all is_id_char t" by (simp add: list_all_iff)
    ultimately show ?thesis by (rule valid_segment_of_units)
  qed
  then have "list_all isValidSegment ts" by (simp add: list_all_iff)
  with split ts_ne have "isValidNoteId (js_join ''/'' ts)" by (simp add: isValidNoteId_def)
  with out show ?thesis by blast
qed

lemma units_inj: "units s = units t \<Longrightarrow> s = t"
  unfolding units_def by (erule map_injective) (rule inj_of_char)

text \<open>
  C7, as the claim states it, fails: \<open>toSlug\<close> keeps every character that is neither
  white space nor a slash, so the slug of \<open>a!\<close> is \<open>a!\<close>, which is non-empty and not a
  valid note id. (On \<open>a!\<close>, lowercasing changes nothing.)
\<close>

theorem toSlug_bang_is_invalid:
  "toSlug ascii_toLowerCase (units ''a!'') = units ''a!''
   \<and> units ''a!'' \<noteq> [] \<and> \<not> isValidNoteId ''a!'' \<and> \<not> is_id_char CHR ''!''"
  by (simp add: units_def toSlug_def slugifySegment_def trim_def is_space_def
      ascii_toLowerCase_def strip_dashes_def isValidNoteId_def isValidSegment_def is_id_char_def
      is_lower_letter_def is_digit_def)

text \<open>
  C7, amended. Whatever the lowercasing, as long as it brings no slash into a text that
  has none: for every input, if the slug is non-empty then each of its segments is
  non-empty, neither starts nor ends with a dash and has no two dashes in a row. And with
  a lowercasing that on plain text is the ASCII one: for every input made of ASCII
  letters, digits, white space, dashes and slashes only, a non-empty slug is the text of
  a valid note id.
\<close>

theorem toSlug_valid_on_plain_input:
  "((\<forall>s. 0x2F \<notin> set s \<longrightarrow> 0x2F \<notin> set (toLowerCase s)) \<and> toSlug toLowerCase x \<noteq> []
      \<longrightarrow> list_all dash_shaped (js_split 0x2F (toSlug toLowerCase x)))
   \<and> ((\<forall>s. list_all slug_input_unit s \<longrightarrow> toLowerCase s = ascii_toLowerCase s)
        \<and> list_all slug_input_unit x \<and> toSlug toLowerCase x \<noteq> []
      \<longrightarrow> (\<exists>s. toSlug toLowerCase x = units s \<and> isValidNoteId s))"
  using toSlug_shape [of toLowerCase x] toSlug_plain_valid [of toLowerCase x] by blast

theorem toSlug_valid_on_plain_input_witness:
  "list_all slug_input_unit (units ''Projects / Foo  Bar'')
   \<and> toSlug ascii_toLowerCase (units ''Projects / Foo  Bar'') = units ''projects/foo-bar''
   \<and> isValidNoteId ''projects/foo-bar''
   \<and> list_all dash_shaped (js_split 0x2F (toSlug ascii_toLowerCase (units ''Projects / Foo  Bar'')))
   \<and> toSlug ascii_toLowerCase [0x61, 0xA0, 0x2028, 0x62] = units ''a-b''"
proof -
  let ?x = "units ''Projects / Foo  Bar''"
  have a: "list_all slug_input_unit ?x"
    by (simp add: slug_input_unit_def units_def is_space_def)
  have s: "toSlug ascii_toLowerCase ?x = units ''projects/foo-bar''"
    by (simp add: units_def toSlug_def slugifySegment_def trim_def is_space_def
        ascii_toLowerCase_def strip_dashes_def)
  have ne: "toSlug ascii_toLowerCase ?x \<noteq> []" unfolding s by (simp add: units_def)
  have sp: "toSlug ascii_toLowerCase [0x61, 0xA0, 0x2028, 0x62] = units ''a-b''"
    by (simp add: units_def toSlug_def slugifySegment_def trim_def is_space_def
        ascii_toLowerCase_def strip_dashes_def)
  have h1: "\<forall>s. 0x2F \<notin> set s \<longrightarrow> 0x2F \<notin> set (ascii_toLowerCase s)"
    using ascii_toLowerCase_no_slash by blast
  have h2: "\<forall>s. list_all slug_input_unit s \<longrightarrow> ascii_toLowerCase s = ascii_toLowerCase s"
    by simp
  from toSlug_valid_on_plain_input [of ascii_toLowerCase ?x] h1 h2 a ne
  have shape: "list_all dash_shaped (js_split 0x2F (toSlug ascii_toLowerCase ?x))"
    and "\<exists>t. toSlug ascii_toLowerCase ?x = units t \<and> isValidNoteId t"
    by blast+
  then obtain t where "units ''projects/foo-bar'' = units t" and v: "isValidNoteId t"
    by (auto simp only: s)
  then have "t = ''projects/foo-bar''" by (auto dest: units_inj)
  with v a s shape sp show ?thesis by simp
qed

end
